theory Spec2Isabelle
  imports Main
begin

section \<open>The reservoir equalizer (src/src/equalizer.py)\<close>

text \<open>
  The module works on a Python list of integers. Python integers are unbounded, so a
  volume is an \<open>int\<close> and the list an \<open>int list\<close>. Every index expression of the
  module (\<open>i\<close>, \<open>i-1\<close> with \<open>i \<ge> 1\<close>, \<open>i+1\<close>, \<open>j\<close>) is non-negative, so an index is a
  \<open>nat\<close> and Python's wrap-around of negative indices never comes into play; reading
  or writing at an index that is not below the length raises \<open>IndexError\<close>.
  A function that assigns to the elements of the list it was given returns the list
  as it is after the call, next to its result.
\<close>

subsection \<open>List access\<close>

datatype error = IndexError

definition getitem :: "int list \<Rightarrow> nat \<Rightarrow> error + int" where
  "getitem xs i = (if i < length xs then Inr (xs ! i) else Inl IndexError)"

definition setitem :: "int list \<Rightarrow> nat \<Rightarrow> int \<Rightarrow> error + int list" where
  "setitem xs i v = (if i < length xs then Inr (xs[i := v]) else Inl IndexError)"

subsection \<open>can_equalize\<close>

text \<open>
  \<^verbatim>\<open>for i in range(1, len(volumes)):
      if volumes[i] < volumes[i-1]: return False
  return True\<close>
  The loop runs over the indices \<open>[1..<length volumes]\<close>.
\<close>

fun can_equalize_loop :: "int list \<Rightarrow> nat list \<Rightarrow> error + bool" where
  "can_equalize_loop volumes [] = Inr True"
| "can_equalize_loop volumes (i # is) =
     (case getitem volumes i of Inl e \<Rightarrow> Inl e | Inr a \<Rightarrow>
       (case getitem volumes (i - 1) of Inl e \<Rightarrow> Inl e | Inr b \<Rightarrow>
          if a < b then Inr False else can_equalize_loop volumes is))"

definition can_equalize :: "int list \<Rightarrow> error + bool" where
  "can_equalize volumes = can_equalize_loop volumes [1..<length volumes]"

subsection \<open>min_operations\<close>

text \<open>
  \<^verbatim>\<open>for j in range(i+1): volumes[j] += diff\<close>
  with the indices \<open>j\<close> given as a list; \<open>simulate_equalization\<close> runs the same loop
  with \<open>diff = 1\<close>.
\<close>

fun add_to_prefix :: "int \<Rightarrow> nat list \<Rightarrow> int list \<Rightarrow> error + int list" where
  "add_to_prefix diff [] volumes = Inr volumes"
| "add_to_prefix diff (j # js) volumes =
     (case getitem volumes j of Inl e \<Rightarrow> Inl e | Inr x \<Rightarrow>
       (case setitem volumes j (x + diff) of Inl e \<Rightarrow> Inl e | Inr volumes' \<Rightarrow>
          add_to_prefix diff js volumes'))"

text \<open>
  The body of \<^verbatim>\<open>for i in range(n-2, -1, -1)\<close>, on the state
  \<open>(operations, volumes)\<close>:
  \<^verbatim>\<open>if volumes[i] < volumes[i+1]:
      diff = volumes[i+1] - volumes[i]
      operations += diff
      for j in range(i+1): volumes[j] += diff\<close>
\<close>

fun min_operations_loop :: "nat list \<Rightarrow> int \<times> int list \<Rightarrow> error + int \<times> int list" where
  "min_operations_loop [] (operations, volumes) = Inr (operations, volumes)"
| "min_operations_loop (i # is) (operations, volumes) =
     (case getitem volumes i of Inl e \<Rightarrow> Inl e | Inr a \<Rightarrow>
       (case getitem volumes (i + 1) of Inl e \<Rightarrow> Inl e | Inr b \<Rightarrow>
          if a < b then
            (let diff = b - a in
               (case add_to_prefix diff [0..<i + 1] volumes of Inl e \<Rightarrow> Inl e
                | Inr volumes' \<Rightarrow> min_operations_loop is (operations + diff, volumes')))
          else min_operations_loop is (operations, volumes)))"

text \<open>
  \<open>min_operations\<close> returns its result together with the contents of the caller's
  list after the call: the loop assigns to \<^verbatim>\<open>volumes[j]\<close>, the list object it was
  passed. \<^verbatim>\<open>range(n-2, -1, -1)\<close> is \<open>n-2, ..., 0\<close>, empty for \<open>n \<le> 1\<close>, which is
  \<open>rev [0..<n - 1]\<close> with the truncating subtraction of \<open>nat\<close>.
  \<^verbatim>\<open>len(set(volumes))\<close> is the number of distinct values, \<open>card (set volumes)\<close>.
\<close>

definition min_operations :: "int list \<Rightarrow> error + int \<times> int list" where
  "min_operations volumes =
     (case can_equalize volumes of Inl e \<Rightarrow> Inl e | Inr ok \<Rightarrow>
        if \<not> ok then Inr (- 1, volumes)
        else
          let n = length volumes in
          if card (set volumes) = 1 then Inr (0, volumes)
          else min_operations_loop (rev [0..<n - 1]) (0, volumes))"

subsection \<open>Facts about list access\<close>

text \<open>
  Inside the range an access succeeds, and the inner loop over \<open>range(k)\<close> adds
  \<open>diff\<close> to the first \<open>k\<close> elements and leaves the rest. The while loop of
  \<open>simulate_equalization\<close> terminates by this.
\<close>

lemma getitem_Inr [simp]: "i < length xs \<Longrightarrow> getitem xs i = Inr (xs ! i)"
  by (simp add: getitem_def)

lemma setitem_Inr [simp]: "i < length xs \<Longrightarrow> setitem xs i v = Inr (xs[i := v])"
  by (simp add: setitem_def)

lemma add_to_prefix_nth:
  "distinct js \<Longrightarrow> \<forall>j\<in>set js. j < length vs \<Longrightarrow>
   \<exists>vs'. add_to_prefix d js vs = Inr vs' \<and> length vs' = length vs \<and>
     (\<forall>j<length vs. vs' ! j = (if j \<in> set js then vs ! j + d else vs ! j))"
proof (induction js arbitrary: vs)
  case Nil
  then show ?case by simp
next
  case (Cons j js)
  let ?vs1 = "vs[j := vs ! j + d]"
  from Cons.prems have j: "j < length vs" "j \<notin> set js" "distinct js"
    and js: "\<forall>i\<in>set js. i < length ?vs1" by simp_all
  from Cons.IH [OF j(3) js] obtain vs' where
    r: "add_to_prefix d js ?vs1 = Inr vs'" and l: "length vs' = length vs"
    and n: "\<forall>i<length vs. vs' ! i = (if i \<in> set js then ?vs1 ! i + d else ?vs1 ! i)"
    by auto
  from j r have "add_to_prefix d (j # js) vs = Inr vs'" by simp
  moreover from n j have
    "\<forall>i<length vs. vs' ! i = (if i \<in> set (j # js) then vs ! i + d else vs ! i)"
    by (auto simp: nth_list_update)
  ultimately show ?case using l by blast
qed

lemma add_to_prefix_upt:
  assumes "k \<le> length vs"
  shows "add_to_prefix d [0..<k] vs = Inr (map (\<lambda>x. x + d) (take k vs) @ drop k vs)"
proof -
  from assms add_to_prefix_nth [of "[0..<k]" vs d] obtain vs' where
    r: "add_to_prefix d [0..<k] vs = Inr vs'" and l: "length vs' = length vs"
    and n: "\<forall>j<length vs. vs' ! j = (if j \<in> set [0..<k] then vs ! j + d else vs ! j)"
    by auto
  have "vs' = map (\<lambda>x. x + d) (take k vs) @ drop k vs"
  proof (rule nth_equalityI)
    show "length vs' = length (map (\<lambda>x. x + d) (take k vs) @ drop k vs)"
      using l assms by simp
  next
    fix i assume "i < length vs'"
    with l n assms show "vs' ! i = (map (\<lambda>x. x + d) (take k vs) @ drop k vs) ! i"
      by (auto simp: nth_append)
  qed
  with r show ?thesis by simp
qed

subsection \<open>simulate_equalization\<close>

text \<open>
  The state of the simulation is \<open>(operations, current_volumes, states)\<close>.
  \<^verbatim>\<open>while current_volumes[i] < current_volumes[i+1]:
      for j in range(i+1): current_volumes[j] += 1
      operations += 1
      states.append(current_volumes.copy())\<close>
  Each pass closes the gap between positions \<open>i\<close> and \<open>i+1\<close> by one, so the loop
  ends; a read outside the list ends it with \<open>IndexError\<close>.
\<close>

type_synonym trace_state = "int \<times> int list \<times> int list list"

function simulate_while :: "nat \<Rightarrow> trace_state \<Rightarrow> error + trace_state" where
  "simulate_while i (operations, current_volumes, states) =
     (case getitem current_volumes i of Inl e \<Rightarrow> Inl e | Inr a \<Rightarrow>
       (case getitem current_volumes (i + 1) of Inl e \<Rightarrow> Inl e | Inr b \<Rightarrow>
          if a < b then
            (case add_to_prefix 1 [0..<i + 1] current_volumes of Inl e \<Rightarrow> Inl e
             | Inr current_volumes' \<Rightarrow>
                 simulate_while i
                   (operations + 1, current_volumes', states @ [current_volumes']))
          else Inr (operations, current_volumes, states)))"
  by pat_completeness auto
termination
proof (relation "measure (\<lambda>(i, operations, current_volumes, states).
    nat (current_volumes ! (i + 1) - current_volumes ! i))")
  show "wf (measure (\<lambda>(i, operations, current_volumes, states).
    nat (current_volumes ! (i + 1) - current_volumes ! i)))" by simp
next
  fix i :: nat and operations :: int and current_volumes current_volumes' :: "int list"
    and states :: "int list list" and a b :: int
  assume a: "getitem current_volumes i = Inr a"
    and b: "getitem current_volumes (i + 1) = Inr b"
    and lt: "a < b"
    and step: "add_to_prefix 1 [0..<i + 1] current_volumes = Inr current_volumes'"
  from b have len: "i + 1 < length current_volumes"
    by (simp add: getitem_def split: if_splits)
  with a b have ab: "a = current_volumes ! i" "b = current_volumes ! (i + 1)" by simp_all
  from len step add_to_prefix_upt [of "i + 1" current_volumes 1] have "current_volumes' =
      map (\<lambda>x. x + 1) (take (i + 1) current_volumes) @ drop (i + 1) current_volumes"
    by simp
  with len have "current_volumes' ! i = a + 1" "current_volumes' ! (i + 1) = b"
    by (simp_all add: nth_append ab)
  with lt ab show "((i, operations + 1, current_volumes', states @ [current_volumes']),
      (i, operations, current_volumes, states))
    \<in> measure (\<lambda>(i, operations, current_volumes, states).
        nat (current_volumes ! (i + 1) - current_volumes ! i))"
    by simp
qed

text \<open>
  \<^verbatim>\<open>for i in range(n-2, -1, -1)\<close> around the while loop, then the function:
  \<^verbatim>\<open>if not can_equalize(volumes): return -1, [volumes]
  current_volumes = volumes.copy(); states = [current_volumes.copy()]; operations = 0
  ...
  return operations, states\<close>
  The simulation works on a copy, so the caller's list is not part of the result.
\<close>

fun simulate_loop :: "nat list \<Rightarrow> trace_state \<Rightarrow> error + trace_state" where
  "simulate_loop [] st = Inr st"
| "simulate_loop (i # is) st =
     (case simulate_while i st of Inl e \<Rightarrow> Inl e | Inr st' \<Rightarrow> simulate_loop is st')"

definition simulate_equalization :: "int list \<Rightarrow> error + int \<times> int list list" where
  "simulate_equalization volumes =
     (case can_equalize volumes of Inl e \<Rightarrow> Inl e | Inr ok \<Rightarrow>
        if \<not> ok then Inr (- 1, [volumes])
        else
          let n = length volumes;
              current_volumes = volumes;
              states = [current_volumes]
          in (case simulate_loop (rev [0..<n - 1]) (0, current_volumes, states) of
                Inl e \<Rightarrow> Inl e
              | Inr (operations, current_volumes', states') \<Rightarrow> Inr (operations, states')))"

declare simulate_while.simps [simp del]

subsection \<open>Unit prefix operations\<close>

text \<open>
  \<open>prefix_step n a b\<close>: the state \<open>b\<close> is the state \<open>a\<close> (both of length \<open>n\<close>) after one
  operation "add one unit to the first \<open>k\<close> reservoirs", for some \<open>k\<close> from \<open>1\<close> to \<open>n\<close>.
  \<open>raised k d vs\<close> is \<open>vs\<close> with \<open>d\<close> added to its first \<open>k\<close> elements.
\<close>

definition prefix_step :: "nat \<Rightarrow> int list \<Rightarrow> int list \<Rightarrow> bool" where
  "prefix_step n a b =
     (length a = n \<and> length b = n \<and>
      (\<exists>k\<in>{1..n}. \<forall>j\<in>{0..<n}. b ! j = (if j < k then a ! j + 1 else a ! j)))"

abbreviation raised :: "nat \<Rightarrow> int \<Rightarrow> int list \<Rightarrow> int list" where
  "raised k d vs \<equiv> map (\<lambda>x. x + d) (take k vs) @ drop k vs"

section \<open>Properties\<close>

subsection \<open>can_equalize\<close>

lemma can_equalize_loop_Inr:
  "\<forall>i\<in>set is. i < length volumes \<Longrightarrow>
   can_equalize_loop volumes is = Inr (\<forall>i\<in>set is. volumes ! (i - 1) \<le> volumes ! i)"
  by (induction "is") (auto simp: not_less)

lemma adjacent_iff_sorted:
  "(\<forall>i\<in>{1..<length volumes}. volumes ! (i - 1) \<le> volumes ! i) = sorted (volumes :: int list)"
  unfolding sorted_iff_nth_Suc
proof (intro iffI allI impI ballI)
  fix i
  assume a: "\<forall>i\<in>{1..<length volumes}. volumes ! (i - 1) \<le> volumes ! i" and "Suc i < length volumes"
  then have "Suc i \<in> {1..<length volumes}" by simp
  with a have "volumes ! (Suc i - 1) \<le> volumes ! Suc i" by blast
  then show "volumes ! i \<le> volumes ! Suc i" by simp
next
  fix i
  assume a: "\<forall>i. Suc i < length volumes \<longrightarrow> volumes ! i \<le> volumes ! Suc i"
    and i: "i \<in> {1..<length volumes}"
  then obtain k where k: "i = Suc k" by (cases i) auto
  with a i show "volumes ! (i - 1) \<le> volumes ! i" by simp
qed

lemma can_equalize_sorted: "can_equalize volumes = Inr (sorted volumes)"
proof -
  have "can_equalize volumes =
      Inr (\<forall>i\<in>set [1..<length volumes]. volumes ! (i - 1) \<le> volumes ! i)"
    unfolding can_equalize_def by (rule can_equalize_loop_Inr) simp
  then show ?thesis by (simp only: set_upt adjacent_iff_sorted)
qed

subsection \<open>min_operations\<close>

lemma min_operations_loop_level:
  "m < length vs \<Longrightarrow> sorted (take (Suc m) vs) \<Longrightarrow>
   min_operations_loop (rev [0..<m]) (ops, vs) =
     Inr (ops + vs ! m - vs ! 0, replicate (Suc m) (vs ! m) @ drop (Suc m) vs)"
proof (induction m arbitrary: ops vs)
  case 0
  then have "vs = vs ! 0 # drop (Suc 0) vs"
    by (cases vs) simp_all
  then show ?case by simp
next
  case (Suc m)
  let ?a = "vs ! m" and ?b = "vs ! Suc m"
  from Suc.prems have len: "m < length vs" "Suc m < length vs" by simp_all
  have srt: "sorted (take (Suc m) vs)"
    using Suc.prems(2) sorted_wrt_take [of "(\<le>)" "take (Suc (Suc m)) vs" "Suc m"]
    by (simp add: min_def)
  have ab: "?a \<le> ?b"
    using Suc.prems sorted_nth_mono [of "take (Suc (Suc m)) vs" m "Suc m"] by simp
  have tail: "drop (Suc m) vs = ?b # drop (Suc (Suc m)) vs"
    using len by (simp add: Cons_nth_drop_Suc)
  show ?case
  proof (cases "?a < ?b")
    case True
    let ?d = "?b - ?a"
    let ?vs' = "map (\<lambda>x. x + ?d) (take (Suc m) vs) @ drop (Suc m) vs"
    have step: "add_to_prefix ?d [0..<Suc m] vs = Inr ?vs'"
      using len by (intro add_to_prefix_upt) simp
    have l': "m < length ?vs'" using len by simp
    have s': "sorted (take (Suc m) ?vs')"
      using srt len by (simp add: sorted_map sorted_wrt_iff_nth_less sorted_iff_nth_mono)
    have m': "?vs' ! m = ?b" using len by (simp add: nth_append)
    have z': "?vs' ! 0 = vs ! 0 + ?d" using len by (simp add: nth_append)
    have d': "drop (Suc m) ?vs' = drop (Suc m) vs" using len by simp
    have "min_operations_loop (rev [0..<Suc m]) (ops, vs) =
        min_operations_loop (rev [0..<m]) (ops + ?d, ?vs')"
      using len True step by (simp add: Let_def)
    also have "\<dots> = Inr (ops + ?d + ?vs' ! m - ?vs' ! 0,
        replicate (Suc m) (?vs' ! m) @ drop (Suc m) ?vs')"
      by (rule Suc.IH [OF l' s'])
    also have "\<dots> = Inr (ops + ?b - vs ! 0, replicate (Suc m) ?b @ drop (Suc m) vs)"
      by (simp only: m' z' d') simp
    also have "\<dots> = Inr (ops + ?b - vs ! 0,
        replicate (Suc (Suc m)) ?b @ drop (Suc (Suc m)) vs)"
      by (simp only: tail) (simp add: replicate_append_same)
    finally show ?thesis .
  next
    case False
    with ab have eq: "?a = ?b" by simp
    have "min_operations_loop (rev [0..<Suc m]) (ops, vs) =
        min_operations_loop (rev [0..<m]) (ops, vs)"
      using len False by simp
    also have "\<dots> = Inr (ops + ?a - vs ! 0, replicate (Suc m) ?a @ drop (Suc m) vs)"
      by (rule Suc.IH [OF len(1) srt])
    also have "\<dots> = Inr (ops + ?b - vs ! 0,
        replicate (Suc (Suc m)) ?b @ drop (Suc (Suc m)) vs)"
      by (simp only: tail eq) (simp add: replicate_append_same)
    finally show ?thesis .
  qed
qed

lemma min_operations_empty: "min_operations [] = Inr (0, [])"
  by (simp add: min_operations_def can_equalize_sorted)

lemma min_operations_infeasible: "\<not> sorted S \<Longrightarrow> min_operations S = Inr (- 1, S)"
  by (simp add: min_operations_def can_equalize_sorted)

lemma card_set_one_replicate:
  assumes "card (set S) = 1"
  shows "S = replicate (length S) (S ! (length S - 1))" and "S ! 0 = S ! (length S - 1)"
proof -
  from assms obtain x where x: "set S = {x}" by (rule card_1_singletonE)
  then have "S \<noteq> []" by auto
  then have "S ! (length S - 1) \<in> set S" "S ! 0 \<in> set S" by simp_all
  with x have e: "S ! (length S - 1) = x" "S ! 0 = x" by simp_all
  from x have "S = replicate (length S) x"
    by (intro replicate_length_same [symmetric]) simp
  with e show "S = replicate (length S) (S ! (length S - 1))" by simp
  from e show "S ! 0 = S ! (length S - 1)" by simp
qed

lemma min_operations_feasible:
  assumes "sorted S" and "S \<noteq> []"
  shows "min_operations S =
    Inr (S ! (length S - 1) - S ! 0, replicate (length S) (S ! (length S - 1)))"
proof (cases "card (set S) = 1")
  case True
  from True assms have "min_operations S = Inr (0, S)"
    by (simp add: min_operations_def can_equalize_sorted)
  also from card_set_one_replicate [OF True] have
    "(0, S) = (S ! (length S - 1) - S ! 0, replicate (length S) (S ! (length S - 1)))"
    by simp
  finally show ?thesis .
next
  case False
  from assms have l: "length S - 1 < length S" and s: "sorted (take (Suc (length S - 1)) S)"
    by simp_all
  from False assms have "min_operations S = min_operations_loop (rev [0..<length S - 1]) (0, S)"
    by (simp add: min_operations_def can_equalize_sorted)
  also have "\<dots> = Inr (0 + S ! (length S - 1) - S ! 0,
      replicate (Suc (length S - 1)) (S ! (length S - 1)) @ drop (Suc (length S - 1)) S)"
    by (rule min_operations_loop_level [OF l s])
  also have "\<dots> = Inr (S ! (length S - 1) - S ! 0, replicate (length S) (S ! (length S - 1)))"
    using assms by simp
  finally show ?thesis .
qed

subsection \<open>simulate_equalization\<close>

lemma raised_twice:
  "k \<le> length vs \<Longrightarrow> raised k d (raised k 1 vs) = raised k (d + 1) vs"
  by (simp add: ac_simps)

lemma prefix_step_raised:
  "1 \<le> k \<Longrightarrow> k \<le> length vs \<Longrightarrow> prefix_step (length vs) vs (raised k 1 vs)"
  unfolding prefix_step_def
  by (intro conjI bexI [of _ k]) (simp_all add: nth_append)

lemma simulate_while_level:
  "i + 1 < length cv \<Longrightarrow> cv ! i \<le> cv ! (i + 1) \<Longrightarrow> nat (cv ! (i + 1) - cv ! i) = n \<Longrightarrow>
   \<exists>sts'. simulate_while i (ops, cv, sts) =
       Inr (ops + int n, raised (i + 1) (int n) cv, sts @ sts') \<and>
     length sts' = n \<and> last (cv # sts') = raised (i + 1) (int n) cv \<and>
     successively (prefix_step (length cv)) (cv # sts')"
proof (induction n arbitrary: ops cv sts)
  case 0
  then have "simulate_while i (ops, cv, sts) = Inr (ops, cv, sts)"
    by (subst simulate_while.simps) simp
  then show ?case by simp
next
  case (Suc n)
  let ?cv1 = "raised (i + 1) 1 cv"
  from Suc.prems have lt: "cv ! i < cv ! (i + 1)" by linarith
  from Suc.prems have len: "i < length cv" "i + 1 \<le> length cv" "i + 1 < length cv"
    by simp_all
  have step: "add_to_prefix 1 [0..<i + 1] cv = Inr ?cv1"
    by (rule add_to_prefix_upt [OF len(2)])
  have i1: "?cv1 ! i = cv ! i + 1" and i2: "?cv1 ! (i + 1) = cv ! (i + 1)"
    using len by (simp_all add: nth_append)
  have l1: "i + 1 < length ?cv1" using len by simp
  have le1: "?cv1 ! i \<le> ?cv1 ! (i + 1)" using lt unfolding i1 i2 by simp
  have n1: "nat (?cv1 ! (i + 1) - ?cv1 ! i) = n"
    using Suc.prems(3) unfolding i1 i2 by simp
  from Suc.IH [OF l1 le1 n1, of "ops + 1" "sts @ [?cv1]"] obtain sts2 where
    r: "simulate_while i (ops + 1, ?cv1, sts @ [?cv1]) =
        Inr (ops + 1 + int n, raised (i + 1) (int n) ?cv1, (sts @ [?cv1]) @ sts2)"
    and l: "length sts2 = n"
    and e: "last (?cv1 # sts2) = raised (i + 1) (int n) ?cv1"
    and c: "successively (prefix_step (length ?cv1)) (?cv1 # sts2)"
    by blast
  have fin: "raised (i + 1) (int n) ?cv1 = raised (i + 1) (int (Suc n)) cv"
    using raised_twice [OF len(2), of "int n"] by (simp add: ac_simps)
  have "simulate_while i (ops, cv, sts) = simulate_while i (ops + 1, ?cv1, sts @ [?cv1])"
    using len lt step by (subst simulate_while.simps) simp
  with r fin have "simulate_while i (ops, cv, sts) =
      Inr (ops + int (Suc n), raised (i + 1) (int (Suc n)) cv, sts @ (?cv1 # sts2))"
    by simp
  moreover have "length (?cv1 # sts2) = Suc n" using l by simp
  moreover have "last (cv # ?cv1 # sts2) = raised (i + 1) (int (Suc n)) cv"
    using e fin by simp
  moreover have "successively (prefix_step (length cv)) (cv # ?cv1 # sts2)"
  proof -
    have "length ?cv1 = length cv" using len by simp
    with c have "successively (prefix_step (length cv)) (?cv1 # sts2)" by (simp only:)
    moreover have "prefix_step (length cv) cv ?cv1"
      using len by (intro prefix_step_raised) simp_all
    ultimately show ?thesis by (simp only: successively.simps)
  qed
  ultimately show ?case by blast
qed

lemma successively_join:
  assumes "successively P (x # s1)" and "last (x # s1) = y" and "successively P (y # s2)"
  shows "successively P (x # s1 @ s2)" and "last (x # s1 @ s2) = last (y # s2)"
proof -
  from assms(3) have "s2 = [] \<or> P y (hd s2) \<and> successively P s2"
    by (simp add: successively_Cons)
  with assms(1,2) have "successively P ((x # s1) @ s2)"
    unfolding successively_append_iff by (cases s2) auto
  then show "successively P (x # s1 @ s2)" by simp
  have "last ((x # s1) @ s2) = (if s2 = [] then last (x # s1) else last s2)"
    by (rule last_append)
  moreover have "last (y # s2) = (if s2 = [] then y else last s2)"
    by simp
  ultimately show "last (x # s1 @ s2) = last (y # s2)"
    by (simp only: assms(2) append_Cons)
qed

lemma simulate_loop_level:
  "m < length cv \<Longrightarrow> sorted (take (Suc m) cv) \<Longrightarrow>
   \<exists>sts'. simulate_loop (rev [0..<m]) (ops, cv, sts) =
       Inr (ops + cv ! m - cv ! 0, replicate (Suc m) (cv ! m) @ drop (Suc m) cv, sts @ sts') \<and>
     int (length sts') = cv ! m - cv ! 0 \<and>
     last (cv # sts') = replicate (Suc m) (cv ! m) @ drop (Suc m) cv \<and>
     successively (prefix_step (length cv)) (cv # sts')"
proof (induction m arbitrary: ops cv sts)
  case 0
  then have "cv = cv ! 0 # drop (Suc 0) cv"
    by (cases cv) simp_all
  then have "cv = replicate (Suc 0) (cv ! 0) @ drop (Suc 0) cv" by simp
  then show ?case by (intro exI [of _ "[]"]) simp
next
  case (Suc m)
  let ?a = "cv ! m" and ?b = "cv ! Suc m"
  let ?P = "prefix_step (length cv)"
  define n where "n = nat (cv ! (m + 1) - cv ! m)"
  define cv1 where "cv1 = raised (m + 1) (int n) cv"
  from Suc.prems have len: "m < length cv" "m + 1 < length cv" by simp_all
  have srt: "sorted (take (Suc m) cv)"
    using Suc.prems(2) sorted_wrt_take [of "(\<le>)" "take (Suc (Suc m)) cv" "Suc m"]
    by (simp add: min_def)
  have ab: "cv ! m \<le> cv ! (m + 1)"
    using Suc.prems sorted_nth_mono [of "take (Suc (Suc m)) cv" m "Suc m"] by simp
  then have n: "int n = ?b - ?a" by (simp add: n_def)
  have tail: "drop (Suc m) cv = ?b # drop (Suc (Suc m)) cv"
    using len by (simp add: Cons_nth_drop_Suc)
  from simulate_while_level [OF len(2) ab n_def [symmetric], of ops sts] obtain s1 where
    w: "simulate_while m (ops, cv, sts) = Inr (ops + int n, cv1, sts @ s1)"
    and wl: "length s1 = n" and we: "last (cv # s1) = cv1"
    and wc: "successively ?P (cv # s1)"
    unfolding cv1_def by blast
  have l1: "m < length cv1" and lc: "length cv1 = length cv"
    using len by (simp_all add: cv1_def)
  have s1: "sorted (take (Suc m) cv1)"
    using srt len
    by (simp add: cv1_def sorted_map sorted_wrt_iff_nth_less sorted_iff_nth_mono)
  have m1: "cv1 ! m = ?b" using len n by (simp add: cv1_def nth_append)
  have z1: "cv1 ! 0 = cv ! 0 + (?b - ?a)" using len n by (simp add: cv1_def nth_append)
  have d1: "drop (Suc m) cv1 = drop (Suc m) cv" using len by (simp add: cv1_def)
  have fin: "replicate (Suc m) (cv1 ! m) @ drop (Suc m) cv1 =
      replicate (Suc (Suc m)) ?b @ drop (Suc (Suc m)) cv"
    by (simp only: m1 d1 tail) (simp add: replicate_append_same)
  from Suc.IH [OF l1 s1, of "ops + int n" "sts @ s1"] obtain s2 where
    r: "simulate_loop (rev [0..<m]) (ops + int n, cv1, sts @ s1) =
        Inr (ops + int n + cv1 ! m - cv1 ! 0,
          replicate (Suc m) (cv1 ! m) @ drop (Suc m) cv1, (sts @ s1) @ s2)"
    and rl: "int (length s2) = cv1 ! m - cv1 ! 0"
    and re: "last (cv1 # s2) = replicate (Suc m) (cv1 ! m) @ drop (Suc m) cv1"
    and rc: "successively (prefix_step (length cv1)) (cv1 # s2)"
    by blast
  from rc lc have rc': "successively ?P (cv1 # s2)" by (simp only:)
  have ops: "ops + int n + cv1 ! m - cv1 ! 0 = ops + ?b - cv ! 0"
    using m1 z1 n by simp
  have "simulate_loop (rev [0..<Suc m]) (ops, cv, sts) =
      simulate_loop (rev [0..<m]) (ops + int n, cv1, sts @ s1)"
    using w by simp
  also note r
  finally have "simulate_loop (rev [0..<Suc m]) (ops, cv, sts) =
      Inr (ops + ?b - cv ! 0, replicate (Suc (Suc m)) ?b @ drop (Suc (Suc m)) cv,
        sts @ (s1 @ s2))"
    by (simp only: ops fin append_assoc)
  moreover have "int (length (s1 @ s2)) = ?b - cv ! 0"
    using wl rl n m1 z1 by simp
  moreover have "last (cv # s1 @ s2) =
      replicate (Suc (Suc m)) ?b @ drop (Suc (Suc m)) cv"
    using successively_join(2) [OF wc we rc'] re fin by (simp only:)
  moreover have "successively ?P (cv # s1 @ s2)"
    by (rule successively_join(1) [OF wc we rc'])
  ultimately show ?case by blast
qed

lemma simulate_empty: "simulate_equalization [] = Inr (0, [[]])"
  by (simp add: simulate_equalization_def can_equalize_sorted)

lemma simulate_infeasible: "\<not> sorted S \<Longrightarrow> simulate_equalization S = Inr (- 1, [S])"
  by (simp add: simulate_equalization_def can_equalize_sorted)

lemma simulate_feasible:
  assumes "sorted S" and "S \<noteq> []"
  shows "\<exists>sts'. simulate_equalization S = Inr (S ! (length S - 1) - S ! 0, S # sts') \<and>
    int (length sts') = S ! (length S - 1) - S ! 0 \<and>
    last (S # sts') = replicate (length S) (S ! (length S - 1)) \<and>
    successively (prefix_step (length S)) (S # sts')"
proof -
  from assms have l: "length S - 1 < length S" and s: "sorted (take (Suc (length S - 1)) S)"
    by simp_all
  from simulate_loop_level [OF l s, of 0 "[S]"] obtain sts' where
    r: "simulate_loop (rev [0..<length S - 1]) (0, S, [S]) =
        Inr (0 + S ! (length S - 1) - S ! 0,
          replicate (Suc (length S - 1)) (S ! (length S - 1)) @ drop (Suc (length S - 1)) S,
          [S] @ sts')"
    and n: "int (length sts') = S ! (length S - 1) - S ! 0"
    and e: "last (S # sts') =
        replicate (Suc (length S - 1)) (S ! (length S - 1)) @ drop (Suc (length S - 1)) S"
    and c: "successively (prefix_step (length S)) (S # sts')"
    by blast
  from assms have full: "Suc (length S - 1) = length S" by simp
  from assms r have "simulate_equalization S = Inr (S ! (length S - 1) - S ! 0, S # sts')"
    by (simp add: simulate_equalization_def can_equalize_sorted)
  moreover from e have "last (S # sts') = replicate (length S) (S ! (length S - 1))"
    unfolding full by simp
  ultimately show ?thesis using n c by blast
qed

lemma Max_sorted:
  assumes "sorted S" and "S \<noteq> []"
  shows "Max (set S) = S ! (length S - 1)"
proof (rule Max_eqI)
  show "finite (set S)" by simp
next
  fix y assume "y \<in> set S"
  then obtain i where "i < length S" and "S ! i = y" by (auto simp: in_set_conv_nth)
  with assms(1) sorted_nth_mono [of S i "length S - 1"] show "y \<le> S ! (length S - 1)"
    by auto
next
  from assms(2) show "S ! (length S - 1) \<in> set S" by simp
qed

section \<open>The claims\<close>

text \<open>
  A feasible input is a non-decreasing list, \<open>sorted S\<close>; by \<open>can_equalize_sorted\<close> these
  are the lists that \<open>can_equalize\<close> accepts. A result \<open>Inr\<close> says that the call returned
  without raising.
\<close>

text \<open>
  C1: for every list \<open>S\<close> of integers, the empty and the one-element lists included,
  \<open>can_equalize S\<close> returns true if and only if \<open>S\<close> is non-decreasing: \<open>S[i] \<ge> S[i-1]\<close>
  for every \<open>i\<close> from \<open>1\<close> to \<open>len(S) - 1\<close>.
\<close>

theorem can_equalize_iff_non_decreasing:
  "can_equalize S = Inr (\<forall>i\<in>{1..<length S}. S ! (i - 1) \<le> S ! i)"
proof -
  have "can_equalize S = Inr (\<forall>i\<in>set [1..<length S]. S ! (i - 1) \<le> S ! i)"
    unfolding can_equalize_def by (rule can_equalize_loop_Inr) simp
  then show ?thesis by (simp only: set_upt)
qed

theorem can_equalize_iff_non_decreasing_witness:
  "can_equalize [1, 1, 5] = Inr True \<and> can_equalize [5, 1, 3] = Inr False \<and>
   can_equalize [] = Inr True \<and> can_equalize [7] = Inr True"
proof -
  have "\<forall>i\<in>{1..<length [1, 1, 5 :: int]}. [1, 1, 5 :: int] ! (i - 1) \<le> [1, 1, 5] ! i"
    by (auto simp: nth_Cons' less_Suc_eq numeral_3_eq_3)
  moreover have
    "\<not> (\<forall>i\<in>{1..<length [5, 1, 3 :: int]}. [5, 1, 3 :: int] ! (i - 1) \<le> [5, 1, 3] ! i)"
    by (auto intro!: bexI [of _ 1])
  ultimately show ?thesis
    using can_equalize_iff_non_decreasing [of "[1, 1, 5]"]
      can_equalize_iff_non_decreasing [of "[5, 1, 3]"]
      can_equalize_iff_non_decreasing [of "[]"]
      can_equalize_iff_non_decreasing [of "[7]"]
    by simp
qed

text \<open>
  C2: for every feasible (non-decreasing) \<open>S\<close>, \<open>min_operations S\<close> and
  \<open>simulate_equalization S\<close> both return, and the integer returned by the first is the
  operation count, the first component, returned by the second.
\<close>

theorem min_operations_eq_simulate_count:
  assumes "sorted S"
  shows "\<exists>r vs T. min_operations S = Inr (r, vs) \<and> simulate_equalization S = Inr (r, T)"
proof (cases "S = []")
  case True
  then show ?thesis by (simp add: min_operations_empty simulate_empty)
next
  case False
  with assms min_operations_feasible [of S] simulate_feasible [of S] show ?thesis
    by blast
qed

theorem min_operations_eq_simulate_count_witness:
  "sorted [1, 1, 5, 5, 5 :: int] \<and>
   (\<exists>r vs T. min_operations [1, 1, 5, 5, 5] = Inr (r, vs) \<and>
      simulate_equalization [1, 1, 5, 5, 5] = Inr (r, T))"
  using min_operations_eq_simulate_count [of "[1, 1, 5, 5, 5]"] by simp

text \<open>
  C3: for every feasible non-empty \<open>S\<close> of length \<open>n\<close>, the last state of the trace that
  \<open>simulate_equalization S\<close> returns is \<open>[max(S)] * n\<close>: every element is the maximum
  of the input.
\<close>

theorem simulate_final_state:
  assumes "sorted S" and "S \<noteq> []"
  shows "\<exists>r T. simulate_equalization S = Inr (r, T) \<and>
    last T = replicate (length S) (Max (set S))"
  using simulate_feasible [OF assms] Max_sorted [OF assms] by auto

theorem simulate_final_state_witness:
  "sorted [1, 3, 4 :: int] \<and> [1, 3, 4 :: int] \<noteq> [] \<and>
   (\<exists>r T. simulate_equalization [1, 3, 4] = Inr (r, T) \<and> last T = [4, 4, 4])"
  using simulate_final_state [of "[1, 3, 4]"] by (simp add: numeral_3_eq_3)

text \<open>
  C4, as the code has it: for every \<open>n \<ge> 1\<close> and \<open>M \<ge> 0\<close>, \<open>min_operations\<close> on \<open>n - 1\<close>
  zeros followed by \<open>M\<close> returns \<open>M\<close> when \<open>n \<ge> 2\<close> and \<open>0\<close> when \<open>n = 1\<close>. The
  product \<open>M * (n - 1)\<close> is returned only for \<open>n \<le> 2\<close> or \<open>M = 0\<close>: on two zeros followed by
  \<open>5\<close> the result is \<open>5\<close>, not \<open>10\<close>.
\<close>

theorem min_operations_zeros_then_M:
  assumes "1 \<le> n" and "0 \<le> M"
  shows "\<exists>vs. min_operations (replicate (n - 1) 0 @ [M]) =
    Inr (if n = 1 then 0 else M, vs)"
proof -
  let ?S = "replicate (n - 1) 0 @ [M]"
  from assms have s: "sorted ?S" by (simp add: sorted_append)
  have l: "?S ! (length ?S - 1) = M" by (simp add: nth_append)
  from assms have z: "?S ! 0 = (if n = 1 then M else 0)"
    by (cases "n - 1") (auto simp: nth_append)
  from min_operations_feasible [OF s] have
    "min_operations ?S = Inr (?S ! (length ?S - 1) - ?S ! 0,
      replicate (length ?S) (?S ! (length ?S - 1)))"
    by simp
  then have "min_operations ?S =
      Inr (M - (if n = 1 then M else 0), replicate (length ?S) (?S ! (length ?S - 1)))"
    by (simp only: l z)
  then show ?thesis by (cases "n = 1") simp_all
qed

theorem min_operations_zeros_then_M_witness:
  "(1::nat) \<le> 4 \<and> (0::int) \<le> 5 \<and>
   (\<exists>vs. min_operations [0, 0, 0, 5] = Inr (5, vs))"
  using min_operations_zeros_then_M [of 4 5] by (simp add: numeral_3_eq_3)

theorem min_operations_zeros_then_M_counterexample:
  "min_operations (replicate (3 - 1) 0 @ [5]) = Inr (5, [5, 5, 5]) \<and>
   (5::int) \<noteq> 5 * (3 - 1)"
  by (simp add: min_operations_def can_equalize_def getitem_def setitem_def
      eval_nat_numeral upt_rec nth_Cons')

text \<open>
  C5: \<open>min_operations\<close> assigns to the elements of the list it was given. After
  \<open>min_operations([1, 2])\<close> has returned \<open>1\<close>, the caller's list holds \<open>[2, 2]\<close>.
\<close>

theorem min_operations_changes_argument:
  "min_operations [1, 2] = Inr (1, [2, 2]) \<and> [2, 2] \<noteq> [1, 2 :: int]"
  by (simp add: min_operations_def can_equalize_def getitem_def setitem_def)

text \<open>
  C6: for every \<open>S\<close> that is not non-decreasing, \<open>min_operations S\<close> returns \<open>-1\<close> (and
  leaves the list as it was) and \<open>simulate_equalization S\<close> returns \<open>(-1, [S])\<close>, a trace
  of the one state \<open>S\<close>; for every non-decreasing \<open>S\<close>, \<open>min_operations S\<close> returns a
  non-negative integer.
\<close>

theorem infeasible_sentinel:
  "(\<not> sorted S \<longrightarrow>
      min_operations S = Inr (- 1, S) \<and> simulate_equalization S = Inr (- 1, [S])) \<and>
   (sorted S \<longrightarrow> (\<exists>r vs. min_operations S = Inr (r, vs) \<and> 0 \<le> r))"
proof (intro conjI impI)
  assume "\<not> sorted S"
  then show "min_operations S = Inr (- 1, S)" by (rule min_operations_infeasible)
next
  assume "\<not> sorted S"
  then show "simulate_equalization S = Inr (- 1, [S])" by (rule simulate_infeasible)
next
  assume s: "sorted S"
  show "\<exists>r vs. min_operations S = Inr (r, vs) \<and> 0 \<le> r"
  proof (cases "S = []")
    case True
    then show ?thesis by (simp add: min_operations_empty)
  next
    case False
    with s sorted_nth_mono [of S 0 "length S - 1"] have "0 \<le> S ! (length S - 1) - S ! 0"
      by simp
    with min_operations_feasible [OF s False] show ?thesis by simp
  qed
qed

theorem infeasible_sentinel_witness:
  "\<not> sorted [3, 2, 1 :: int] \<and> min_operations [3, 2, 1] = Inr (- 1, [3, 2, 1]) \<and>
   simulate_equalization [3, 2, 1] = Inr (- 1, [[3, 2, 1]]) \<and>
   sorted [- 3, 4 :: int] \<and> (\<exists>r vs. min_operations [- 3, 4] = Inr (r, vs) \<and> 0 \<le> r)"
  using infeasible_sentinel [of "[3, 2, 1]"] infeasible_sentinel [of "[- 3, 4]"] by simp

text \<open>
  C7: for every feasible \<open>S\<close>, the trace returned by \<open>simulate_equalization S\<close> has one
  state more than the returned operation count: the initial state and one snapshot for
  each unit operation.
\<close>

theorem trace_length:
  assumes "sorted S"
  shows "\<exists>r T. simulate_equalization S = Inr (r, T) \<and> int (length T) = r + 1"
proof (cases "S = []")
  case True
  then show ?thesis by (simp add: simulate_empty)
next
  case False
  from simulate_feasible [OF assms False] show ?thesis by auto
qed

theorem trace_length_witness:
  "sorted [0, 0, 2 :: int] \<and>
   (\<exists>r T. simulate_equalization [0, 0, 2] = Inr (r, T) \<and> int (length T) = r + 1)"
  using trace_length [of "[0, 0, 2]"] by simp

text \<open>
  C8: for every feasible \<open>S\<close> of length \<open>n\<close> and every two consecutive states \<open>T[m]\<close>,
  \<open>T[m+1]\<close> of the trace returned by \<open>simulate_equalization S\<close>, there is a \<open>k\<close> from \<open>1\<close>
  to \<open>n\<close> with \<open>T[m+1][j] = T[m][j] + 1\<close> for \<open>j < k\<close> and \<open>T[m+1][j] = T[m][j]\<close> for
  \<open>j \<ge> k\<close>: each step is one unit prefix operation.
\<close>

theorem trace_steps_are_prefix_operations:
  assumes "sorted S"
  shows "\<exists>r T. simulate_equalization S = Inr (r, T) \<and>
    (\<forall>m. m + 1 < length T \<longrightarrow> prefix_step (length S) (T ! m) (T ! (m + 1)))"
proof (cases "S = []")
  case True
  then show ?thesis by (simp add: simulate_empty)
next
  case False
  from simulate_feasible [OF assms False] obtain sts' where
    r: "simulate_equalization S = Inr (S ! (length S - 1) - S ! 0, S # sts')"
    and c: "successively (prefix_step (length S)) (S # sts')"
    by blast
  have "prefix_step (length S) ((S # sts') ! m) ((S # sts') ! (m + 1))"
    if "m + 1 < length (S # sts')" for m
    using successively_nth [OF c, of m] that by simp
  with r show ?thesis by blast
qed

theorem trace_steps_are_prefix_operations_witness:
  "sorted [1, 2 :: int] \<and> simulate_equalization [1, 2] = Inr (1, [[1, 2], [2, 2]]) \<and>
   prefix_step (length [1, 2 :: int]) [1, 2] [2, 2]"
proof -
  have s: "sorted [1, 2 :: int]" by simp
  have e: "simulate_equalization [1, 2] = Inr (1, [[1, 2], [2, 2]])"
    by (simp add: simulate_equalization_def can_equalize_def getitem_def setitem_def
        simulate_while.simps)
  from trace_steps_are_prefix_operations [OF s] e have
    "\<forall>m. m + 1 < length [[1, 2], [2, 2 :: int]] \<longrightarrow>
       prefix_step (length [1, 2 :: int]) ([[1, 2], [2, 2]] ! m) ([[1, 2], [2, 2]] ! (m + 1))"
    by simp
  then have "0 + 1 < length [[1, 2], [2, 2 :: int]] \<longrightarrow>
      prefix_step (length [1, 2 :: int]) ([[1, 2], [2, 2]] ! 0) ([[1, 2], [2, 2]] ! (0 + 1))"
    by (rule spec)
  then have "prefix_step (length [1, 2 :: int]) [1, 2] [2, 2]" by simp
  with s e show ?thesis by (simp only: simp_thms)
qed

text \<open>
  C9: for the empty list and for every one-element list, \<open>min_operations\<close> returns \<open>0\<close>.
\<close>

theorem min_operations_trivial:
  "min_operations [] = Inr (0, []) \<and> min_operations [x] = Inr (0, [x])"
  by (simp add: min_operations_def can_equalize_def)

text \<open>
  C10: for every non-decreasing non-empty list \<open>S\<close> of integers, negative values
  allowed, \<open>min_operations S\<close> returns \<open>S[len(S)-1] - S[0]\<close>, the last element of the input
  minus its first.
\<close>

theorem min_operations_last_minus_first:
  assumes "sorted S" and "S \<noteq> []"
  shows "\<exists>vs. min_operations S = Inr (S ! (length S - 1) - S ! 0, vs)"
  using min_operations_feasible [OF assms] by simp

theorem min_operations_last_minus_first_witness:
  "sorted [- 3, 0, 4 :: int] \<and> [- 3, 0, 4 :: int] \<noteq> [] \<and>
   (\<exists>vs. min_operations [- 3, 0, 4] = Inr (7, vs))"
  using min_operations_last_minus_first [of "[- 3, 0, 4]"] by simp

end
